theory Spec2Isabelle
  imports Complex_Main
begin

section \<open>Python numbers\<close>

text \<open>
  The program is Python: \<open>int\<close> is unbounded and is modelled by \<^typ>\<open>int\<close>; \<open>float\<close> is
  IEEE 754 binary64 and is modelled by the exact rational value of the double, or one of
  the three special values. The two zeros \<open>0.0\<close> and \<open>-0.0\<close> are both the value \<open>0\<close>.
  Every arithmetic result is the exact result rounded to the nearest double, ties to the
  even significand; the rounding is written out below.
\<close>

datatype pyfloat = Finite rat | PosInf | NegInf | NaN

datatype pyerr =
    ValueError string
  | OverflowError string
  | ZeroDivisionError string
  | KeyError string

text \<open>\<open>int.bit_length\<close> on the non-negative integers.\<close>

function bit_length :: "int \<Rightarrow> int" where
  "bit_length n = (if n \<le> 0 then 0 else 1 + bit_length (n div 2))"
  by pat_completeness auto
termination
  by (relation "measure nat") auto

declare bit_length.simps [simp del]

text \<open>
  The binary exponent of a positive rational \<open>x\<close>: the \<open>e\<close> with \<open>2^e \<le> x < 2^(e+1)\<close>.
\<close>

definition expo :: "rat \<Rightarrow> int" where
  "expo x = (if 1 \<le> x then bit_length \<lfloor>x\<rfloor> - 1 else - bit_length (\<lceil>1 / x\<rceil> - 1))"

text \<open>Rounding to the nearest integer, ties to the even one.\<close>

definition round_half_even :: "rat \<Rightarrow> int" where
  "round_half_even x =
     (let f = \<lfloor>x\<rfloor>; r = x - of_int f
      in if r < 1 / 2 then f
         else if 1 / 2 < r then f + 1
         else if even f then f else f + 1)"

text \<open>
  The exponent of the unit in the last place of the doubles around \<open>x\<close>: 53 significant
  bits, and the fixed spacing \<open>2^-1074\<close> of the subnormal range below \<open>2^-1022\<close>.
\<close>

definition ulp_exp :: "rat \<Rightarrow> int" where
  "ulp_exp x = max (expo \<bar>x\<bar>) (- 1022) - 52"

definition round_double :: "rat \<Rightarrow> rat" where
  "round_double x =
     (if x = 0 then 0
      else of_int (round_half_even (x / 2 powi ulp_exp x)) * 2 powi ulp_exp x)"

text \<open>A rounded value of magnitude \<open>2^1024\<close> or more is beyond the largest double.\<close>

definition dbl_overflow :: "rat \<Rightarrow> bool" where
  "dbl_overflow r \<longleftrightarrow> 2 ^ 1024 \<le> \<bar>r\<bar>"

text \<open>IEEE result of an operation whose exact value is \<open>x\<close>: overflow gives an infinity.\<close>

definition ieee_result :: "rat \<Rightarrow> pyfloat" where
  "ieee_result x =
     (let r = round_double x
      in if dbl_overflow r then (if 0 < r then PosInf else NegInf) else Finite r)"

text \<open>\<open>a / b\<close> on two ints: correctly rounded, raising where no double fits.\<close>

definition int_truediv :: "int \<Rightarrow> int \<Rightarrow> pyerr + pyfloat" where
  "int_truediv a b =
     (if b = 0 then Inl (ZeroDivisionError ''division by zero'')
      else let r = round_double (of_int a / of_int b)
           in if dbl_overflow r
              then Inl (OverflowError ''integer division result too large for a float'')
              else Inr (Finite r))"

text \<open>The conversion of an int operand to float in mixed arithmetic.\<close>

definition float_of_int :: "int \<Rightarrow> pyerr + pyfloat" where
  "float_of_int n =
     (let r = round_double (of_int n)
      in if dbl_overflow r then Inl (OverflowError ''int too large to convert to float'')
         else Inr (Finite r))"

text \<open>\<open>x * y\<close> on two floats.\<close>

fun float_mul :: "pyfloat \<Rightarrow> pyfloat \<Rightarrow> pyfloat" where
  "float_mul NaN _ = NaN"
| "float_mul _ NaN = NaN"
| "float_mul (Finite x) (Finite y) = ieee_result (x * y)"
| "float_mul (Finite x) PosInf = (if x = 0 then NaN else if 0 < x then PosInf else NegInf)"
| "float_mul (Finite x) NegInf = (if x = 0 then NaN else if 0 < x then NegInf else PosInf)"
| "float_mul PosInf (Finite y) = (if y = 0 then NaN else if 0 < y then PosInf else NegInf)"
| "float_mul NegInf (Finite y) = (if y = 0 then NaN else if 0 < y then NegInf else PosInf)"
| "float_mul PosInf PosInf = PosInf"
| "float_mul PosInf NegInf = NegInf"
| "float_mul NegInf PosInf = NegInf"
| "float_mul NegInf NegInf = PosInf"

text \<open>\<open>x / y\<close> on two floats: Python raises on a zero divisor.\<close>

fun float_truediv :: "pyfloat \<Rightarrow> pyfloat \<Rightarrow> pyerr + pyfloat" where
  "float_truediv x (Finite y) =
     (if y = 0 then Inl (ZeroDivisionError ''float division by zero'')
      else case x of
             Finite a \<Rightarrow> Inr (ieee_result (a / y))
           | PosInf \<Rightarrow> Inr (if 0 < y then PosInf else NegInf)
           | NegInf \<Rightarrow> Inr (if 0 < y then NegInf else PosInf)
           | NaN \<Rightarrow> Inr NaN)"
| "float_truediv (Finite a) PosInf = Inr (Finite 0)"
| "float_truediv (Finite a) NegInf = Inr (Finite 0)"
| "float_truediv _ _ = Inr NaN"

text \<open>\<open>int(x)\<close> on a float: truncation toward zero.\<close>

definition trunc :: "rat \<Rightarrow> int" where
  "trunc x = (if 0 \<le> x then \<lfloor>x\<rfloor> else \<lceil>x\<rceil>)"

fun int_of_float :: "pyfloat \<Rightarrow> pyerr + int" where
  "int_of_float (Finite x) = Inr (trunc x)"
| "int_of_float NaN = Inl (ValueError ''cannot convert float NaN to integer'')"
| "int_of_float _ = Inl (OverflowError ''cannot convert float infinity to integer'')"

text \<open>\<open>math.ceil(x)\<close> on a float.\<close>

fun math_ceil :: "pyfloat \<Rightarrow> pyerr + int" where
  "math_ceil (Finite x) = Inr \<lceil>x\<rceil>"
| "math_ceil NaN = Inl (ValueError ''cannot convert float NaN to integer'')"
| "math_ceil _ = Inl (OverflowError ''cannot convert float infinity to integer'')"

text \<open>Sequencing of computations that may raise.\<close>

definition bind :: "pyerr + 'a \<Rightarrow> ('a \<Rightarrow> pyerr + 'b) \<Rightarrow> pyerr + 'b" where
  "bind m f = (case m of Inl e \<Rightarrow> Inl e | Inr v \<Rightarrow> f v)"

section \<open>The profiles\<close>

record RollupProfile =
  key :: string
  name :: string
  description :: string
  proof_gas :: int
  calldata_gas_per_tx :: int
  overhead_gas_per_batch :: int

definition aztec :: RollupProfile where
  "aztec = \<lparr> key = ''aztec'', name = ''Aztec-style zk rollup'',
     description = ''Privacy-preserving zk rollup with relatively expensive proofs but efficient calldata packing.'',
     proof_gas = 900000, calldata_gas_per_tx = 320, overhead_gas_per_batch = 60000 \<rparr>"

definition zama :: RollupProfile where
  "zama = \<lparr> key = ''zama'', name = ''Zama-style FHE + rollup hybrid'',
     description = ''Conceptual profile for a system combining fully homomorphic encryption with rollup-style batching. Proofs are cheaper but ciphertexts are larger.'',
     proof_gas = 500000, calldata_gas_per_tx = 700, overhead_gas_per_batch = 70000 \<rparr>"

definition soundness :: RollupProfile where
  "soundness = \<lparr> key = ''soundness'', name = ''Soundness-first research rollup'',
     description = ''Profile that prioritizes simple, auditable circuits and extra safety margins over raw gas efficiency.'',
     proof_gas = 650000, calldata_gas_per_tx = 420, overhead_gas_per_batch = 90000 \<rparr>"

definition PROFILES :: "(string \<times> RollupProfile) list" where
  "PROFILES = [(''aztec'', aztec), (''zama'', zama), (''soundness'', soundness)]"

section \<open>The cost computation\<close>

definition wei_from_gwei :: "pyfloat \<Rightarrow> pyerr + int" where
  "wei_from_gwei x =
     bind (float_of_int 1000000000) (\<lambda>c. int_of_float (float_mul x c))"

definition eth_from_wei :: "int \<Rightarrow> pyerr + pyfloat" where
  "eth_from_wei x = int_truediv x 1000000000000000000"

text \<open>The local variables of \<open>compute_cost\<close> at its return statement.\<close>

record CostLocals =
  batches :: int
  total_proof_gas :: int
  total_overhead_gas :: int
  total_calldata_gas :: int
  total_gas :: int
  gas_price_wei :: int
  total_fee_wei :: int
  total_fee_eth :: pyfloat
  per_tx_gas :: pyfloat
  per_tx_fee_eth :: pyfloat

text \<open>The dictionary that \<open>compute_cost\<close> returns, one field for each key.\<close>

record CostSummary =
  profile :: string
  profileName :: string
  description :: string
  txCount :: int
  batchSize :: int
  batches :: int
  gasPriceGwei :: pyfloat
  proofGasPerBatch :: int
  calldataGasPerTx :: int
  overheadGasPerBatch :: int
  totalProofGas :: int
  totalOverheadGas :: int
  totalCalldataGas :: int
  totalGas :: int
  perTxGas :: pyfloat
  totalFeeEth :: pyfloat
  perTxFeeEth :: pyfloat

definition compute_cost_locals ::
  "RollupProfile \<Rightarrow> int \<Rightarrow> int \<Rightarrow> pyfloat \<Rightarrow> pyerr + CostLocals" where
  "compute_cost_locals p t b g =
     (if t \<le> 0 then Inl (ValueError ''tx_count must be positive.'')
      else if b \<le> 0 then Inl (ValueError ''batch_size must be positive.'')
      else
        bind (int_truediv t b) (\<lambda>q.
        bind (math_ceil q) (\<lambda>n.
          let tpg = n * proof_gas p;
              tog = n * overhead_gas_per_batch p;
              tcg = t * calldata_gas_per_tx p;
              tg = tpg + tog + tcg
          in
        bind (wei_from_gwei g) (\<lambda>gpw.
          let tfw = tg * gpw in
        bind (eth_from_wei tfw) (\<lambda>tfe.
        bind (int_truediv tg t) (\<lambda>ptg.
        bind (bind (float_of_int t) (float_truediv tfe)) (\<lambda>ptfe.
          Inr \<lparr> CostLocals.batches = n, total_proof_gas = tpg, total_overhead_gas = tog,
                total_calldata_gas = tcg, total_gas = tg, gas_price_wei = gpw,
                total_fee_wei = tfw, total_fee_eth = tfe, per_tx_gas = ptg,
                per_tx_fee_eth = ptfe \<rparr>)))))))"

definition summary_of ::
  "RollupProfile \<Rightarrow> int \<Rightarrow> int \<Rightarrow> pyfloat \<Rightarrow> CostLocals \<Rightarrow> CostSummary" where
  "summary_of p t b g l =
     \<lparr> profile = key p, profileName = name p,
       description = RollupProfile.description p,
       txCount = t, batchSize = b, batches = CostLocals.batches l, gasPriceGwei = g,
       proofGasPerBatch = proof_gas p, calldataGasPerTx = calldata_gas_per_tx p,
       overheadGasPerBatch = overhead_gas_per_batch p,
       totalProofGas = total_proof_gas l, totalOverheadGas = total_overhead_gas l,
       totalCalldataGas = total_calldata_gas l, totalGas = total_gas l,
       perTxGas = per_tx_gas l, totalFeeEth = total_fee_eth l,
       perTxFeeEth = per_tx_fee_eth l \<rparr>"

definition compute_cost ::
  "RollupProfile \<Rightarrow> int \<Rightarrow> int \<Rightarrow> pyfloat \<Rightarrow> pyerr + CostSummary" where
  "compute_cost p t b g =
     bind (compute_cost_locals p t b g) (\<lambda>l. Inr (summary_of p t b g l))"

section \<open>The command line\<close>

text \<open>
  The namespace that \<open>parse_args\<close> returns: \<open>type=int\<close> and \<open>type=float\<close> accept every
  Python int and float literal, negative ones too; an option that is not given is \<open>None\<close>.
\<close>

record Args =
  arg_tx_count :: int
  arg_profile :: string
  arg_batch_size :: int
  arg_gas_price_gwei :: pyfloat
  arg_proof_gas :: "int option"
  arg_calldata_gas_per_tx :: "int option"
  arg_overhead_gas_per_batch :: "int option"
  arg_json :: bool
  arg_list_profiles :: bool



text \<open>\<open>Inl missing\<close>: the message naming the missing options was printed, then \<open>sys.exit(1)\<close>.\<close>

definition build_custom_profile :: "Args \<Rightarrow> string list + RollupProfile" where
  "build_custom_profile args =
     (let missing =
            (if arg_proof_gas args = None then [''--proof-gas''] else [])
          @ (if arg_calldata_gas_per_tx args = None then [''--calldata-gas-per-tx''] else [])
          @ (if arg_overhead_gas_per_batch args = None then [''--overhead-gas-per-batch''] else [])
      in if missing \<noteq> [] then Inl missing
         else Inr \<lparr> key = ''custom'', name = ''Custom rollup profile'',
                    description = ''User-defined gas parameters for a hypothetical rollup.'',
                    proof_gas = the (arg_proof_gas args),
                    calldata_gas_per_tx = the (arg_calldata_gas_per_tx args),
                    overhead_gas_per_batch = the (arg_overhead_gas_per_batch args) \<rparr>)"



section \<open>Properties of the rounding\<close>

subsection \<open>Bit length and binary exponent\<close>

lemma bit_length_nonneg: "0 \<le> bit_length n"
  by (induction n rule: bit_length.induct) (subst bit_length.simps, simp)

lemma bit_length_pos: "0 < n \<Longrightarrow> 1 \<le> bit_length n"
  using bit_length_nonneg [of "n div 2"] by (subst bit_length.simps) simp

lemma bit_length_bounds:
  "0 < n \<Longrightarrow> 2 ^ nat (bit_length n - 1) \<le> n \<and> n < 2 ^ nat (bit_length n)"
proof (induction n rule: bit_length.induct)
  case (1 n)
  have bl: "bit_length n = 1 + bit_length (n div 2)"
    using "1.prems" by (subst bit_length.simps) simp
  show ?case
  proof (cases "n = 1")
    case True
    have "bit_length (0::int) = 0" by (subst bit_length.simps) simp
    then have "bit_length n = 1" using bl True by simp
    then show ?thesis using True by simp
  next
    case False
    define m where "m = n div 2"
    define k where "k = bit_length m"
    have mpos: "0 < m" using False "1.prems" by (simp add: m_def)
    have k1: "1 \<le> k" using bit_length_pos [OF mpos] by (simp add: k_def)
    have ih: "2 ^ nat (k - 1) \<le> m \<and> m < 2 ^ nat k"
      using "1.IH" "1.prems" mpos by (simp add: m_def k_def)
    have blk: "bit_length n = 1 + k" using bl by (simp add: m_def k_def)
    have pk: "(2::int) ^ nat k = 2 * 2 ^ nat (k - 1)"
    proof -
      have "nat k = Suc (nat (k - 1))" using k1 by simp
      then show ?thesis by simp
    qed
    have pk1: "(2::int) ^ nat (1 + k) = 2 * 2 ^ nat k"
      using k1 by (simp add: nat_add_distrib)
    have n2: "2 * m \<le> n \<and> n \<le> 2 * m + 1" by (simp add: m_def) presburger
    have "2 ^ nat (1 + k - 1) \<le> n" using ih n2 pk by simp
    moreover have "n < 2 ^ nat (1 + k)" using ih n2 pk1 by simp
    ultimately show ?thesis by (simp add: blk)
  qed
qed

lemma powi2_less_cancel: "(2::rat) powi a < 2 powi b \<Longrightarrow> a < b"
proof (rule ccontr)
  assume h: "(2::rat) powi a < 2 powi b" and "\<not> a < b"
  then have "b \<le> a" by simp
  then have "(2::rat) powi b \<le> 2 powi a" by (intro power_int_increasing) auto
  with h show False by simp
qed

lemma expo_bounds:
  assumes "0 < x"
  shows "2 powi expo x \<le> x \<and> x < 2 powi (expo x + 1)"
proof (cases "1 \<le> x")
  case True
  define n where "n = \<lfloor>x\<rfloor>"
  have npos: "0 < n" using True by (simp add: n_def)
  have e: "expo x = bit_length n - 1" using True by (simp add: expo_def n_def)
  have k1: "1 \<le> bit_length n" by (rule bit_length_pos [OF npos])
  note b = bit_length_bounds [OF npos]
  have "(2::rat) powi (bit_length n - 1) = of_int (2 ^ nat (bit_length n - 1))"
    using k1 by (simp add: power_int_nonneg_exp)
  also have "\<dots> \<le> of_int n" using b by (simp only: of_int_le_iff)
  also have "\<dots> \<le> x" by (simp add: n_def)
  finally have lo: "2 powi (bit_length n - 1) \<le> x" .
  have "x < of_int (n + 1)" unfolding n_def by linarith
  also have "\<dots> \<le> of_int (2 ^ nat (bit_length n))"
    using b by (simp only: of_int_le_iff) simp
  also have "\<dots> = 2 powi (bit_length n)"
    using k1 by (simp add: power_int_nonneg_exp)
  finally have hi: "x < 2 powi (bit_length n)" .
  show ?thesis using lo hi by (simp add: e)
next
  case False
  define y where "y = 1 / x"
  define m where "m = \<lceil>y\<rceil> - 1"
  define k where "k = bit_length m"
  have y1: "1 < y" using False assms by (simp add: y_def)
  have mpos: "0 < m" using y1 unfolding m_def by linarith
  have e: "expo x = - k" using False by (simp add: expo_def m_def k_def y_def)
  have k1: "1 \<le> k" using bit_length_pos [OF mpos] by (simp add: k_def)
  note b = bit_length_bounds [OF mpos, folded k_def]
  have "(2::rat) powi (k - 1) = of_int (2 ^ nat (k - 1))"
    using k1 by (simp add: power_int_nonneg_exp)
  also have "\<dots> \<le> of_int m" using b by (simp only: of_int_le_iff)
  also have "\<dots> < y" unfolding m_def by linarith
  finally have lo: "2 powi (k - 1) < y" .
  have "y \<le> of_int (m + 1)" unfolding m_def by simp
  also have "\<dots> \<le> of_int (2 ^ nat k)"
    using b by (simp only: of_int_le_iff) simp
  also have "\<dots> = 2 powi k"
    using k1 by (simp add: power_int_nonneg_exp)
  finally have hi: "y \<le> 2 powi k" .
  have p1: "(0::rat) < 2 powi k" and p2: "(0::rat) < 2 powi (k - 1)" by simp_all
  have "2 powi (- k) \<le> x"
  proof -
    have "1 / 2 powi k \<le> 1 / y" using hi y1 by (intro divide_left_mono) auto
    then show ?thesis using assms by (simp add: y_def power_int_minus_divide)
  qed
  moreover have "x < 2 powi (- k + 1)"
  proof -
    have "1 / y < 1 / 2 powi (k - 1)" using lo p2 y1 by (intro divide_strict_left_mono) auto
    moreover have "(2::rat) powi (- k + 1) = 1 / 2 powi (k - 1)"
      by (simp add: power_int_minus_divide [symmetric])
    ultimately show ?thesis using assms by (simp add: y_def)
  qed
  ultimately show ?thesis by (simp add: e)
qed

lemma expo_unique:
  assumes "0 < x" "2 powi e \<le> x" "x < 2 powi (e + 1)"
  shows "expo x = e"
proof -
  note b = expo_bounds [OF assms(1)]
  have "(2::rat) powi expo x < 2 powi (e + 1)" using b assms by linarith
  then have "expo x < e + 1"
    by (rule powi2_less_cancel)
  moreover have "(2::rat) powi e < 2 powi (expo x + 1)" using b assms by linarith
  then have "e < expo x + 1"
    by (rule powi2_less_cancel)
  ultimately show ?thesis by simp
qed

lemma expo_mono:
  assumes "0 < x" "x \<le> y"
  shows "expo x \<le> expo y"
proof -
  have ypos: "0 < y" using assms by simp
  have "(2::rat) powi expo x < 2 powi (expo y + 1)"
    using expo_bounds [OF assms(1)] expo_bounds [OF ypos] assms(2) by linarith
  then have "expo x < expo y + 1"
    by (rule powi2_less_cancel)
  then show ?thesis by simp
qed

subsection \<open>Rounding to the nearest integer\<close>

lemma rhe_of_int: "round_half_even (of_int n) = n"
  by (simp add: round_half_even_def)

lemma rhe_bounds: "\<lfloor>x\<rfloor> \<le> round_half_even x \<and> round_half_even x \<le> \<lfloor>x\<rfloor> + 1"
  by (simp add: round_half_even_def Let_def)

lemma rhe_err: "\<bar>of_int (round_half_even x) - x\<bar> \<le> 1 / 2"
proof -
  have "of_int \<lfloor>x\<rfloor> \<le> x" "x < of_int \<lfloor>x\<rfloor> + 1" by linarith+
  then show ?thesis by (auto simp: round_half_even_def Let_def)
qed

lemma rhe_mono:
  assumes "x \<le> y"
  shows "round_half_even x \<le> round_half_even y"
proof (cases "\<lfloor>x\<rfloor> = \<lfloor>y\<rfloor>")
  case True
  then show ?thesis using assms by (auto simp: round_half_even_def Let_def)
next
  case False
  then have "\<lfloor>x\<rfloor> + 1 \<le> \<lfloor>y\<rfloor>" using floor_mono [OF assms] by simp
  then show ?thesis using rhe_bounds [of x] rhe_bounds [of y] by linarith
qed

lemma rhe_neg: "round_half_even (- x) = - round_half_even x"
proof (cases "x = of_int \<lfloor>x\<rfloor>")
  case True
  then obtain n where "x = of_int n" ..
  then have "- x = of_int (- n)" by simp
  then show ?thesis using \<open>x = of_int n\<close> by (simp only: rhe_of_int)
next
  case False
  then have lt: "of_int \<lfloor>x\<rfloor> < x" using of_int_floor_le [of x] by linarith
  have ub: "x < of_int \<lfloor>x\<rfloor> + 1" by linarith
  have fl: "\<lfloor>- x\<rfloor> = - \<lfloor>x\<rfloor> - 1"
    by (rule floor_unique) (use lt ub in auto)
  show ?thesis using lt ub by (auto simp: round_half_even_def Let_def fl)
qed

subsection \<open>Rounding to the nearest double\<close>

lemma ulp_exp_neg: "ulp_exp (- x) = ulp_exp x"
  by (simp add: ulp_exp_def)

lemma round_double_neg: "round_double (- x) = - round_double x"
  by (simp add: round_double_def ulp_exp_neg rhe_neg)

lemma round_double_err: "\<bar>round_double x - x\<bar> \<le> 2 powi ulp_exp x / 2"
proof (cases "x = 0")
  case True
  then show ?thesis by (simp add: round_double_def)
next
  case False
  define u where "u = (2::rat) powi ulp_exp x"
  have upos: "0 < u" by (simp add: u_def)
  have "round_double x - x = (of_int (round_half_even (x / u)) - x / u) * u"
    using upos False by (simp add: round_double_def u_def algebra_simps)
  then have "\<bar>round_double x - x\<bar> = \<bar>of_int (round_half_even (x / u)) - x / u\<bar> * u"
    using upos by (simp add: abs_mult)
  also have "\<dots> \<le> (1 / 2) * u"
    using rhe_err [of "x / u"] upos by (intro mult_right_mono) auto
  finally show ?thesis by (simp add: u_def)
qed

lemma expo_ge:
  assumes "2 powi k \<le> x"
  shows "k \<le> expo x"
proof -
  have xpos: "0 < x" using assms zero_less_power_int [of "2::rat" k] by linarith
  have "(2::rat) powi k < 2 powi (expo x + 1)"
    using expo_bounds [OF xpos] assms by linarith
  then have "k < expo x + 1" by (rule powi2_less_cancel)
  then show ?thesis by simp
qed

lemma expo_less:
  assumes "0 < x" "x < 2 powi k"
  shows "expo x < k"
proof -
  have "(2::rat) powi expo x < 2 powi k"
    using expo_bounds [OF assms(1)] assms(2) by linarith
  then show ?thesis by (rule powi2_less_cancel)
qed

lemma powi2_split: "(2::rat) powi (a - b) * 2 powi b = 2 powi a"
  by (simp flip: power_int_add)

lemma round_double_rel_err:
  assumes "2 powi (- 1022) \<le> \<bar>x\<bar>"
  shows "\<bar>round_double x - x\<bar> \<le> \<bar>x\<bar> / 2 ^ 53"
proof -
  have e: "- 1022 \<le> expo \<bar>x\<bar>" by (rule expo_ge [OF assms])
  have xpos: "0 < \<bar>x\<bar>" using assms zero_less_power_int [of "2::rat" "- 1022"] by linarith
  have u: "ulp_exp x = expo \<bar>x\<bar> - 53 + 1" using e by (simp add: ulp_exp_def)
  have "(2::rat) powi ulp_exp x = 2 powi (expo \<bar>x\<bar> - 53) * 2"
    unfolding u by (subst power_int_add) auto
  also have "(2::rat) powi (expo \<bar>x\<bar> - 53) = 2 powi expo \<bar>x\<bar> / 2 ^ 53"
    by (subst power_int_diff) auto
  finally have "(2::rat) powi ulp_exp x / 2 = 2 powi expo \<bar>x\<bar> / 2 ^ 53" by simp
  also have "\<dots> \<le> \<bar>x\<bar> / 2 ^ 53"
    using expo_bounds [OF xpos] by (intro divide_right_mono) auto
  finally show ?thesis using round_double_err [of x] by linarith
qed

lemma round_double_pow2:
  assumes "- 1074 \<le> k"
  shows "round_double (2 powi k) = 2 powi k"
proof -
  have e: "expo (2 powi k) = k"
    by (rule expo_unique) (auto intro: power_int_strict_increasing)
  define p where "p = max k (- 1022) - 52"
  have up: "ulp_exp (2 powi k) = p" by (simp add: ulp_exp_def e p_def)
  have kp: "0 \<le> k - p" using assms by (simp add: p_def)
  have "(2::rat) powi k / 2 powi p = 2 powi (k - p)" by (subst power_int_diff) auto
  also have "\<dots> = of_int (2 ^ nat (k - p))" using kp by (simp add: power_int_nonneg_exp)
  finally have q: "(2::rat) powi k / 2 powi p = of_int (2 ^ nat (k - p))" .
  have "round_double (2 powi k) = of_int (2 ^ nat (k - p)) * 2 powi p"
    unfolding round_double_def up q rhe_of_int by simp
  also have "\<dots> = 2 powi (k - p) * 2 powi p" using kp by (simp add: power_int_nonneg_exp)
  also have "\<dots> = 2 powi k" by (rule powi2_split)
  finally show ?thesis .
qed

text \<open>Within a binade the rounded value stays between its two powers of two.\<close>

lemma round_double_upper:
  assumes "0 < x"
  shows "round_double x \<le> 2 powi (max (expo x) (- 1022) + 1)"
proof -
  define E where "E = max (expo x) (- 1022)"
  define p where "p = E - 52"
  have up: "ulp_exp x = p" using assms by (simp add: ulp_exp_def E_def p_def)
  have "x < 2 powi (expo x + 1)" using expo_bounds [OF assms] by simp
  also have "\<dots> \<le> 2 powi (E + 1)" by (intro power_int_increasing) (auto simp: E_def)
  finally have xE: "x < 2 powi (E + 1)" .
  have ppos: "(0::rat) < 2 powi p" by simp
  have "(2::rat) powi (E + 1) / 2 powi p = 2 powi (E + 1 - p)" by (subst power_int_diff) auto
  also have "\<dots> = of_int (2 ^ 53)" by (simp add: p_def)
  finally have q: "(2::rat) powi (E + 1) / 2 powi p = of_int (2 ^ 53)" .
  have "x / 2 powi p \<le> 2 powi (E + 1) / 2 powi p"
    using xE ppos by (intro divide_right_mono) auto
  then have "round_half_even (x / 2 powi p) \<le> round_half_even (of_int (2 ^ 53))"
    unfolding q by (rule rhe_mono)
  then have "round_half_even (x / 2 powi p) \<le> 2 ^ 53" by (simp only: rhe_of_int)
  then have "(of_int (round_half_even (x / 2 powi p)) :: rat) \<le> of_int (2 ^ 53)"
    by (simp only: of_int_le_iff)
  then have "of_int (round_half_even (x / 2 powi p)) * 2 powi p \<le> of_int (2 ^ 53) * (2::rat) powi p"
    using ppos by (intro mult_right_mono) auto
  also have "of_int (2 ^ 53) * 2 powi p = 2 powi (E + 1 - p) * (2::rat) powi p"
    by (simp add: p_def)
  also have "\<dots> = 2 powi (E + 1)" by (rule powi2_split)
  finally show ?thesis using assms by (simp add: round_double_def up E_def)
qed

lemma round_double_lower:
  assumes "0 < x" "- 1022 \<le> expo x"
  shows "2 powi expo x \<le> round_double x"
proof -
  define e where "e = expo x"
  define p where "p = e - 52"
  have up: "ulp_exp x = p" using assms by (simp add: ulp_exp_def e_def p_def)
  have ppos: "(0::rat) < 2 powi p" by simp
  have "(2::rat) powi e / 2 powi p = 2 powi (e - p)" by (subst power_int_diff) auto
  also have "\<dots> = of_int (2 ^ 52)" by (simp add: p_def)
  finally have q: "(2::rat) powi e / 2 powi p = of_int (2 ^ 52)" .
  have "2 powi e / 2 powi p \<le> x / 2 powi p"
    using expo_bounds [OF assms(1)] ppos unfolding e_def by (intro divide_right_mono) auto
  then have "round_half_even (of_int (2 ^ 52)) \<le> round_half_even (x / 2 powi p)"
    unfolding q by (rule rhe_mono)
  then have "2 ^ 52 \<le> round_half_even (x / 2 powi p)" by (simp only: rhe_of_int)
  then have "(of_int (2 ^ 52) :: rat) \<le> of_int (round_half_even (x / 2 powi p))"
    by (simp only: of_int_le_iff)
  then have "of_int (2 ^ 52) * 2 powi p \<le> of_int (round_half_even (x / 2 powi p)) * (2::rat) powi p"
    using ppos by (intro mult_right_mono) auto
  moreover have "of_int (2 ^ 52) * 2 powi p = 2 powi (e - p) * (2::rat) powi p"
    by (simp add: p_def)
  moreover have "\<dots> = 2 powi e" by (rule powi2_split)
  ultimately have "2 powi e \<le> of_int (round_half_even (x / 2 powi p)) * (2::rat) powi p"
    by (simp only:)
  moreover have "round_double x = of_int (round_half_even (x / 2 powi p)) * 2 powi p"
    using assms by (simp add: round_double_def up)
  ultimately show ?thesis by (simp only: e_def)
qed

lemma round_double_nonneg:
  assumes "0 \<le> x"
  shows "0 \<le> round_double x"
proof -
  have "0 \<le> x / 2 powi ulp_exp x" using assms by simp
  then have "round_half_even 0 \<le> round_half_even (x / 2 powi ulp_exp x)" by (rule rhe_mono)
  then have "0 \<le> round_half_even (x / 2 powi ulp_exp x)"
    using rhe_of_int [of 0] by simp
  then show ?thesis by (simp add: round_double_def)
qed

lemma round_double_mono_pos:
  assumes "0 < x" "x \<le> y"
  shows "round_double x \<le> round_double y"
proof -
  have ypos: "0 < y" using assms by simp
  define Ex where "Ex = max (expo x) (- 1022)"
  define Ey where "Ey = max (expo y) (- 1022)"
  have le: "Ex \<le> Ey" using expo_mono [OF assms] by (simp add: Ex_def Ey_def)
  show ?thesis
  proof (cases "Ex = Ey")
    case True
    then have u: "ulp_exp x = ulp_exp y"
      using assms ypos by (simp add: ulp_exp_def Ex_def Ey_def)
    have "x / 2 powi ulp_exp y \<le> y / 2 powi ulp_exp y"
      using assms by (intro divide_right_mono) auto
    then have "round_half_even (x / 2 powi ulp_exp y) \<le> round_half_even (y / 2 powi ulp_exp y)"
      by (rule rhe_mono)
    then have "(of_int (round_half_even (x / 2 powi ulp_exp y)) :: rat)
        \<le> of_int (round_half_even (y / 2 powi ulp_exp y))"
      by (simp only: of_int_le_iff)
    then have "of_int (round_half_even (x / 2 powi ulp_exp y)) * 2 powi ulp_exp y
        \<le> of_int (round_half_even (y / 2 powi ulp_exp y)) * (2::rat) powi ulp_exp y"
      by (intro mult_right_mono) auto
    then show ?thesis using assms ypos by (simp add: round_double_def u)
  next
    case False
    then have lt: "Ex + 1 \<le> Ey" using le by simp
    then have ey: "Ey = expo y" "- 1022 \<le> expo y" by (auto simp: Ex_def Ey_def)
    have "round_double x \<le> 2 powi (Ex + 1)"
      using round_double_upper [OF assms(1)] by (simp add: Ex_def)
    also have "\<dots> \<le> 2 powi Ey" using lt by (intro power_int_increasing) auto
    also have "\<dots> \<le> round_double y"
      using round_double_lower [OF ypos ey(2)] ey(1) by simp
    finally show ?thesis .
  qed
qed

lemma round_double_mono:
  assumes "x \<le> y"
  shows "round_double x \<le> round_double y"
proof -
  consider "0 < x" | "x \<le> 0" "0 \<le> y" | "y < 0" by linarith
  then show ?thesis
  proof cases
    case 1
    then show ?thesis using assms by (rule round_double_mono_pos)
  next
    case 2
    have "0 \<le> round_double (- x)" using 2 by (intro round_double_nonneg) simp
    then have "round_double x \<le> 0" by (simp add: round_double_neg)
    moreover have "0 \<le> round_double y" using 2 by (intro round_double_nonneg)
    ultimately show ?thesis by simp
  next
    case 3
    have "round_double (- y) \<le> round_double (- x)"
      using 3 assms by (intro round_double_mono_pos) auto
    then show ?thesis by (simp add: round_double_neg)
  qed
qed

lemma round_double_abs: "\<bar>round_double x\<bar> = round_double \<bar>x\<bar>"
proof (cases "0 \<le> x")
  case True
  then show ?thesis using round_double_nonneg [of x] by simp
next
  case False
  then have "0 \<le> round_double (- x)" by (intro round_double_nonneg) simp
  then show ?thesis using False by (simp add: round_double_neg abs_if)
qed

lemma round_double_le_pow2:
  assumes "\<bar>x\<bar> \<le> 2 powi k" "- 1074 \<le> k"
  shows "\<bar>round_double x\<bar> \<le> 2 powi k"
  using round_double_mono [OF assms(1)] round_double_pow2 [OF assms(2)]
  by (simp add: round_double_abs)

lemma round_double_ge_pow2:
  assumes "2 powi k \<le> \<bar>x\<bar>" "- 1074 \<le> k"
  shows "2 powi k \<le> \<bar>round_double x\<bar>"
  using round_double_mono [OF assms(1)] round_double_pow2 [OF assms(2)]
  by (simp add: round_double_abs)

section \<open>When the computation returns\<close>

lemma bind_Inr_iff: "bind m f = Inr y \<longleftrightarrow> (\<exists>v. m = Inr v \<and> f v = Inr y)"
  by (cases m) (simp_all add: bind_def)

lemma int_truediv_Inr:
  "int_truediv a b = Inr q \<longleftrightarrow>
     b \<noteq> 0 \<and> \<not> dbl_overflow (round_double (of_int a / of_int b))
     \<and> q = Finite (round_double (of_int a / of_int b))"
  by (auto simp: int_truediv_def Let_def)

lemma float_of_int_Inr:
  "float_of_int n = Inr q \<longleftrightarrow>
     \<not> dbl_overflow (round_double (of_int n)) \<and> q = Finite (round_double (of_int n))"
  by (auto simp: float_of_int_def Let_def)

lemma math_ceil_Inr: "math_ceil q = Inr n \<longleftrightarrow> (\<exists>x. q = Finite x \<and> n = \<lceil>x\<rceil>)"
  by (cases q) auto

lemma compute_cost_locals_Inr:
  assumes "compute_cost_locals p t b g = Inr l"
  shows "0 < t \<and> 0 < b
    \<and> \<not> dbl_overflow (round_double (of_int t / of_int b))
    \<and> CostLocals.batches l = \<lceil>round_double (of_int t / of_int b)\<rceil>
    \<and> total_proof_gas l = CostLocals.batches l * proof_gas p
    \<and> total_overhead_gas l = CostLocals.batches l * overhead_gas_per_batch p
    \<and> total_calldata_gas l = t * calldata_gas_per_tx p
    \<and> total_gas l = total_proof_gas l + total_overhead_gas l + total_calldata_gas l
    \<and> wei_from_gwei g = Inr (gas_price_wei l)
    \<and> total_fee_wei l = total_gas l * gas_price_wei l
    \<and> eth_from_wei (total_fee_wei l) = Inr (total_fee_eth l)
    \<and> int_truediv (total_gas l) t = Inr (per_tx_gas l)
    \<and> bind (float_of_int t) (float_truediv (total_fee_eth l)) = Inr (per_tx_fee_eth l)"
proof -
  have pos: "0 < t" "0 < b"
    using assms by (auto simp: compute_cost_locals_def split: if_splits)
  then show ?thesis
    using assms
    by (auto simp: compute_cost_locals_def bind_Inr_iff Let_def int_truediv_Inr math_ceil_Inr)
qed

lemma compute_cost_Inr:
  "compute_cost p t b g = Inr s \<longleftrightarrow>
     (\<exists>l. compute_cost_locals p t b g = Inr l \<and> s = summary_of p t b g l)"
  by (auto simp: compute_cost_def bind_Inr_iff)

lemma no_overflow_le_pow2:
  assumes "\<bar>x\<bar> \<le> 2 powi k" "- 1074 \<le> k" "k < 1024"
  shows "\<not> dbl_overflow (round_double x)"
proof -
  have "\<bar>round_double x\<bar> \<le> 2 powi k" by (rule round_double_le_pow2 [OF assms(1,2)])
  also have "(2::rat) powi k < 2 powi 1024"
    using assms(3) by (intro power_int_strict_increasing) auto
  finally show ?thesis by (simp add: dbl_overflow_def)
qed

lemma overflow_ge_pow2:
  assumes "2 ^ 1024 \<le> \<bar>x\<bar>"
  shows "dbl_overflow (round_double x)"
  using round_double_ge_pow2 [of 1024 x] assms by (simp add: dbl_overflow_def)

lemma abs_mult_le:
  fixes a b :: "'a::linordered_idom"
  assumes "\<bar>a\<bar> \<le> A" "\<bar>b\<bar> \<le> B"
  shows "\<bar>a * b\<bar> \<le> A * B"
proof -
  have "\<bar>a\<bar> * \<bar>b\<bar> \<le> A * B" using assms by (intro mult_mono) auto
  then show ?thesis by (simp add: abs_mult)
qed

lemma abs_trunc_le: "\<bar>of_int (trunc x)\<bar> \<le> \<bar>x\<bar>"
proof (cases "0 \<le> x")
  case True
  then show ?thesis by (simp add: trunc_def)
next
  case False
  then have "x \<le> of_int \<lceil>x\<rceil>" "\<lceil>x\<rceil> \<le> 0" by (auto simp: ceiling_le_iff)
  then show ?thesis using False by (simp add: trunc_def)
qed

lemma abs_div_le:
  fixes a :: rat
  assumes "1 \<le> d"
  shows "\<bar>a / d\<bar> \<le> \<bar>a\<bar>"
proof -
  have "\<bar>a\<bar> / d \<le> \<bar>a\<bar> / 1" using assms by (intro divide_left_mono) auto
  then show ?thesis using assms by simp
qed

lemma int_truediv_ok:
  assumes "\<bar>a\<bar> \<le> 2 ^ k" "1 \<le> b" "k < 1024"
  shows "int_truediv a b = Inr (Finite (round_double (of_int a / of_int b)))"
proof -
  have "\<bar>of_int a / of_int b :: rat\<bar> \<le> \<bar>of_int a\<bar>" using assms(2) by (intro abs_div_le) simp
  also have "\<dots> = of_int \<bar>a\<bar>" by simp
  also have "\<dots> \<le> of_int (2 ^ k)" using assms(1) by (simp only: of_int_le_iff)
  also have "\<dots> = 2 powi (int k)" by simp
  finally have "\<not> dbl_overflow (round_double (of_int a / of_int b))"
    using assms(3) by (intro no_overflow_le_pow2 [where k = "int k"]) auto
  then show ?thesis using assms(2) by (simp add: int_truediv_def)
qed

lemma float_of_int_ok:
  assumes "\<bar>n\<bar> \<le> 2 ^ k" "k < 1024"
  shows "float_of_int n = Inr (Finite (round_double (of_int n)))"
proof -
  have "\<bar>of_int n :: rat\<bar> = of_int \<bar>n\<bar>" by simp
  also have "\<dots> \<le> of_int (2 ^ k)" using assms(1) by (simp only: of_int_le_iff)
  also have "\<dots> = 2 powi (int k)" by simp
  finally have "\<not> dbl_overflow (round_double (of_int n))"
    using assms(2) by (intro no_overflow_le_pow2 [where k = "int k"]) auto
  then show ?thesis by (simp add: float_of_int_def)
qed

lemma round_double_giga: "round_double 1000000000 = 1000000000"
  by code_simp

lemma wei_from_gwei_Finite:
  "wei_from_gwei (Finite x) =
     (if dbl_overflow (round_double (x * 1000000000))
      then Inl (OverflowError ''cannot convert float infinity to integer'')
      else Inr (trunc (round_double (x * 1000000000))))"
proof -
  have "float_of_int 1000000000 = Inr (Finite 1000000000)"
    using float_of_int_ok [of 1000000000 30] by (simp add: round_double_giga)
  then show ?thesis by (simp add: wei_from_gwei_def bind_def ieee_result_def)
qed

lemma compute_cost_locals_succeeds:
  assumes t: "0 < t" "t \<le> 2 ^ 256" and b: "0 < b"
    and pg: "\<bar>proof_gas p\<bar> \<le> 2 ^ 256"
    and og: "\<bar>overhead_gas_per_batch p\<bar> \<le> 2 ^ 256"
    and cg: "\<bar>calldata_gas_per_tx p\<bar> \<le> 2 ^ 256"
    and x: "\<bar>x\<bar> \<le> 2 ^ 256"
  shows "\<exists>l. compute_cost_locals p t b (Finite x) = Inr l"
proof -
  define r where "r = round_double (of_int t / of_int b)"
  define n where "n = \<lceil>r\<rceil>"
  define tg where "tg = n * proof_gas p + n * overhead_gas_per_batch p + t * calldata_gas_per_tx p"
  define w where "w = round_double (x * 1000000000)"
  define gpw where "gpw = trunc w"
  define fee where "fee = round_double (of_int (tg * gpw) / of_int 1000000000000000000)"
  define ft where "ft = round_double (of_int t)"
  have q1: "int_truediv t b = Inr (Finite r)"
    unfolding r_def using t b by (intro int_truediv_ok [where k = 256]) auto
  have rabs: "\<bar>r\<bar> \<le> 2 powi 256"
  proof -
    have "\<bar>of_int t / of_int b :: rat\<bar> \<le> \<bar>of_int t\<bar>" using b by (intro abs_div_le) simp
    also have "\<dots> = of_int t" using t by simp
    also have "\<dots> \<le> of_int (2 ^ 256)" using t by (simp only: of_int_le_iff)
    finally show ?thesis unfolding r_def by (intro round_double_le_pow2) auto
  qed
  have nabs: "\<bar>n\<bar> \<le> 2 ^ 256"
  proof -
    have "r \<le> of_int (2 ^ 256)" "of_int (- (2 ^ 256)) \<le> r" using rabs by auto
    then have "n \<le> 2 ^ 256" "- (2 ^ 256) \<le> n"
      unfolding n_def by (simp_all only: ceiling_le_iff le_ceiling_iff)
    then show ?thesis by simp
  qed
  have tabs: "\<bar>t\<bar> \<le> 2 ^ 256" using t by simp
  have tgabs: "\<bar>tg\<bar> \<le> 2 ^ 514"
  proof -
    have "\<bar>n * proof_gas p\<bar> \<le> 2 ^ 256 * 2 ^ 256" by (rule abs_mult_le [OF nabs pg])
    moreover have "\<bar>n * overhead_gas_per_batch p\<bar> \<le> 2 ^ 256 * 2 ^ 256"
      by (rule abs_mult_le [OF nabs og])
    moreover have "\<bar>t * calldata_gas_per_tx p\<bar> \<le> 2 ^ 256 * 2 ^ 256"
      by (rule abs_mult_le [OF tabs cg])
    ultimately show ?thesis unfolding tg_def by simp
  qed
  have wabs: "\<bar>w\<bar> \<le> 2 powi 286"
  proof -
    have "\<bar>x * 1000000000\<bar> \<le> 2 ^ 256 * 2 ^ 30"
      using x by (intro abs_mult_le) auto
    then show ?thesis unfolding w_def by (intro round_double_le_pow2) auto
  qed
  have q2: "wei_from_gwei (Finite x) = Inr gpw"
  proof -
    have "\<not> dbl_overflow w" using wabs by (auto simp: dbl_overflow_def)
    then show ?thesis by (simp add: wei_from_gwei_Finite w_def gpw_def)
  qed
  have gabs: "\<bar>gpw\<bar> \<le> 2 ^ 286"
  proof -
    have "(of_int \<bar>gpw\<bar> :: rat) \<le> \<bar>w\<bar>" using abs_trunc_le [of w] by (simp add: gpw_def)
    also have "\<dots> \<le> of_int (2 ^ 286)" using wabs by simp
    finally show ?thesis by (simp only: of_int_le_iff)
  qed
  have fabs: "\<bar>tg * gpw\<bar> \<le> 2 ^ 800"
    using abs_mult_le [OF tgabs gabs] by simp
  have q3: "eth_from_wei (tg * gpw) = Inr (Finite fee)"
    unfolding eth_from_wei_def fee_def using fabs
    by (intro int_truediv_ok [where k = 800]) auto
  have q4: "int_truediv tg t = Inr (Finite (round_double (of_int tg / of_int t)))"
    using tgabs t by (intro int_truediv_ok [where k = 514]) auto
  have q5: "float_of_int t = Inr (Finite ft)"
    unfolding ft_def using tabs by (intro float_of_int_ok [where k = 256]) auto
  have ftpos: "ft \<noteq> 0"
  proof -
    have "2 powi 0 \<le> \<bar>of_int t :: rat\<bar>" using t by simp
    then have "2 powi 0 \<le> \<bar>ft\<bar>" unfolding ft_def by (intro round_double_ge_pow2) auto
    then show ?thesis by auto
  qed
  have q6: "\<exists>y. float_truediv (Finite fee) (Finite ft) = Inr y" using ftpos by simp
  show ?thesis
    using t b q6
    by (auto simp: compute_cost_locals_def bind_def q1 n_def [symmetric] Let_def q2
        tg_def [symmetric] q3 q4 q5)
qed

section \<open>Batches and total gas\<close>

lemma compute_cost_succeeds:
  assumes "0 < t" "t \<le> 2 ^ 256" "0 < b"
    and "\<bar>proof_gas p\<bar> \<le> 2 ^ 256"
    and "\<bar>overhead_gas_per_batch p\<bar> \<le> 2 ^ 256"
    and "\<bar>calldata_gas_per_tx p\<bar> \<le> 2 ^ 256"
    and "\<bar>x\<bar> \<le> 2 ^ 256"
  shows "\<exists>s. compute_cost p t b (Finite x) = Inr s"
  using compute_cost_locals_succeeds [OF assms] by (auto simp: compute_cost_Inr)

lemma compute_cost_fields:
  assumes "compute_cost p t b g = Inr s"
  shows "CostSummary.batches s = \<lceil>round_double (of_int t / of_int b)\<rceil>"
    and "totalProofGas s = CostSummary.batches s * proof_gas p"
    and "totalOverheadGas s = CostSummary.batches s * overhead_gas_per_batch p"
    and "totalCalldataGas s = t * calldata_gas_per_tx p"
    and "totalGas s = totalProofGas s + totalOverheadGas s + totalCalldataGas s"
    and "perTxGas s = Finite (round_double (of_int (totalGas s) / of_int t))"
    and "0 < t" and "0 < b"
    and "\<not> dbl_overflow (round_double (of_int t))"
proof -
  obtain l where l: "compute_cost_locals p t b g = Inr l" and s: "s = summary_of p t b g l"
    using assms by (auto simp: compute_cost_Inr)
  note f = compute_cost_locals_Inr [OF l]
  show "CostSummary.batches s = \<lceil>round_double (of_int t / of_int b)\<rceil>"
    and "totalProofGas s = CostSummary.batches s * proof_gas p"
    and "totalOverheadGas s = CostSummary.batches s * overhead_gas_per_batch p"
    and "totalCalldataGas s = t * calldata_gas_per_tx p"
    and "totalGas s = totalProofGas s + totalOverheadGas s + totalCalldataGas s"
    and "0 < t" and "0 < b"
    using f by (simp_all add: s summary_of_def)
  show "perTxGas s = Finite (round_double (of_int (totalGas s) / of_int t))"
    using f by (simp add: s summary_of_def int_truediv_Inr)
  have "\<exists>y. float_of_int t = Inr y" using f by (auto simp: bind_Inr_iff)
  then show "\<not> dbl_overflow (round_double (of_int t))" by (auto simp: float_of_int_Inr)
qed

lemma round_double_one: "round_double 1 = 1"
  using round_double_pow2 [of 0] by simp

lemma round_double_2_53_1: "round_double 9007199254740993 = 9007199254740992"
  by code_simp

lemma ceiling_round_double_1000_256: "\<lceil>round_double (125 / 32)\<rceil> = 4"
  by code_simp

lemma aztec_bounds:
  "\<bar>proof_gas aztec\<bar> \<le> 2 ^ 256" "\<bar>overhead_gas_per_batch aztec\<bar> \<le> 2 ^ 256"
  "\<bar>calldata_gas_per_tx aztec\<bar> \<le> 2 ^ 256"
  by (simp_all add: aztec_def)

text \<open>
  Claim C1: for every \<open>tx_count > 0\<close> and \<open>batch_size > 0\<close> the field \<open>batches\<close> is the exact
  ceiling of \<open>tx_count / batch_size\<close>. The code takes \<open>math.ceil\<close> of the float quotient, and
  the quotient of \<open>2^53 + 1\<close> by \<open>1\<close> is rounded to the double \<open>2^53\<close>: at this input the
  returned \<open>batches\<close> is one less than the ceiling.
\<close>

theorem batches_not_ceiling_at_2_53_plus_1:
  "map_sum id CostSummary.batches (compute_cost aztec 9007199254740993 1 (Finite 20))
     = Inr 9007199254740992
   \<and> \<lceil>(9007199254740993 :: rat) / 1\<rceil> = 9007199254740993"
proof -
  obtain s where s: "compute_cost aztec 9007199254740993 1 (Finite 20) = Inr s"
    using compute_cost_succeeds [of 9007199254740993 1 aztec 20] aztec_bounds by auto
  have "CostSummary.batches s = 9007199254740992"
    using compute_cost_fields(1) [OF s] by (simp add: round_double_2_53_1)
  then show ?thesis by (simp add: s)
qed

text \<open>The instance that the specification names: 1000 transactions in batches of 256.\<close>

lemma batches_1000_256:
  "map_sum id CostSummary.batches (compute_cost aztec 1000 256 (Finite 20)) = Inr 4"
proof -
  obtain s where s: "compute_cost aztec 1000 256 (Finite 20) = Inr s"
    using compute_cost_succeeds [of 1000 256 aztec 20] aztec_bounds by auto
  have "CostSummary.batches s = 4"
    using compute_cost_fields(1) [OF s] by (simp add: ceiling_round_double_1000_256)
  then show ?thesis by (simp add: s)
qed

text \<open>
  Where the float quotient is harmless: with both operands below \<open>2^53\<close> the rounded
  quotient has the ceiling of the exact one.
\<close>

lemma round_double_of_int_exact:
  assumes "\<bar>n\<bar> \<le> 2 ^ 53"
  shows "round_double (of_int n) = of_int n"
proof -
  have pos: "round_double (of_int m) = of_int m" if m: "0 < m" "m \<le> 2 ^ 53" for m :: int
  proof (cases "m = 2 ^ 53")
    case True
    then show ?thesis using round_double_pow2 [of 53] by simp
  next
    case False
    define x :: rat where "x = of_int m"
    have x1: "2 powi 0 \<le> x" using m by (simp add: x_def)
    have xpos: "0 < x" using m by (simp add: x_def)
    have "m < 2 ^ 53" using m False by simp
    then have "x < of_int (2 ^ 53)" unfolding x_def by (simp only: of_int_less_iff)
    then have xlt: "x < 2 powi 53" by simp
    have e0: "0 \<le> expo x" by (rule expo_ge [OF x1])
    have e52: "expo x < 53" by (rule expo_less [OF xpos xlt])
    define k where "k = 52 - expo x"
    have k0: "0 \<le> k" using e52 by (simp add: k_def)
    have u: "ulp_exp x = - k" using e0 xpos by (simp add: ulp_exp_def k_def)
    have pk: "(2::rat) powi (- k) = 1 / 2 ^ nat k"
      using k0 by (simp add: power_int_minus_divide power_int_nonneg_exp)
    have "x / 2 powi (- k) = of_int (m * 2 ^ nat k)" by (simp add: pk x_def)
    then have "round_half_even (x / 2 powi (- k)) = m * 2 ^ nat k"
      by (simp only: rhe_of_int)
    then have "round_double x = of_int (m * 2 ^ nat k) * 2 powi (- k)"
      using xpos by (simp add: round_double_def u)
    also have "\<dots> = x" by (simp add: pk x_def)
    finally show ?thesis by (simp add: x_def)
  qed
  consider "0 < n" | "n = 0" | "n < 0" by linarith
  then show ?thesis
  proof cases
    case 1
    then show ?thesis using assms by (intro pos) auto
  next
    case 2
    then show ?thesis by (simp add: round_double_def)
  next
    case 3
    then have "round_double (of_int (- n)) = of_int (- n)" using assms by (intro pos) auto
    then show ?thesis by (simp add: round_double_neg)
  qed
qed

lemma ceiling_round_quotient:
  assumes t: "0 < t" "t < 2 ^ 53" and b: "0 < b" "b < 2 ^ 53"
  shows "\<lceil>round_double (of_int t / of_int b)\<rceil> = \<lceil>(of_int t / of_int b :: rat)\<rceil>"
proof -
  define q :: rat where "q = of_int t / of_int b"
  define n where "n = \<lceil>q\<rceil>"
  define B :: rat where "B = of_int b"
  have Bpos: "0 < B" and B1: "1 \<le> B" using b by (simp_all add: B_def)
  have qpos: "0 < q" using t b by (simp add: q_def)
  have qB: "q * B = of_int t" using Bpos by (simp add: q_def B_def)
  have qle: "q \<le> of_int t"
  proof -
    have "of_int t / B \<le> of_int t / 1" using t B1 by (intro divide_left_mono) auto
    then show ?thesis by (simp add: q_def B_def)
  qed
  have n1: "1 \<le> n" using qpos unfolding n_def by (simp add: le_ceiling_iff)
  have nt: "n \<le> t" unfolding n_def using qle by (simp add: ceiling_le_iff)
  have nexact: "round_double (of_int n) = of_int n"
    using n1 nt t by (intro round_double_of_int_exact) auto
  have upper: "round_double q \<le> of_int n"
  proof -
    have "q \<le> of_int n" unfolding n_def by (rule le_of_int_ceiling)
    then have "round_double q \<le> round_double (of_int n)" by (rule round_double_mono)
    then show ?thesis by (simp only: nexact)
  qed
  have lower: "of_int n - 1 < round_double q"
  proof (cases "q = of_int n")
    case True
    then show ?thesis by (simp add: nexact)
  next
    case False
    then have qlt: "q < of_int n" using le_of_int_ceiling [of q] unfolding n_def by linarith
    have qgt: "of_int n - 1 < q" unfolding n_def by linarith
    have gap: "1 / B \<le> q - (of_int n - 1)"
    proof -
      have "(of_int n - 1) * B < q * B" using qgt Bpos by (rule mult_strict_right_mono)
      then have "(of_int ((n - 1) * b) :: rat) < of_int t"
        by (simp add: qB [unfolded B_def] B_def)
      then have "(n - 1) * b < t" by (simp only: of_int_less_iff)
      then have "(n - 1) * b + 1 \<le> t" by simp
      then have "(of_int ((n - 1) * b + 1) :: rat) \<le> of_int t" by (simp only: of_int_le_iff)
      then have "(of_int n - 1) * B + 1 \<le> q * B"
        by (simp add: qB [unfolded B_def] B_def)
      then have "((of_int n - 1) * B + 1) / B \<le> q * B / B"
        using Bpos by (intro divide_right_mono) auto
      then have "(of_int n - 1) + 1 / B \<le> q" using Bpos by (simp add: add_divide_distrib)
      then show ?thesis by linarith
    qed
    show ?thesis
    proof (cases "n = 1")
      case True
      have "(2::rat) powi (- 53) = 1 / 2 ^ 53" by (simp add: power_int_minus_divide)
      also have "\<dots> \<le> 1 / B"
        using b Bpos unfolding B_def by (intro divide_left_mono) auto
      also have "\<dots> \<le> q" using gap True by simp
      finally have "2 powi (- 53) \<le> \<bar>q\<bar>" using qpos by simp
      then have "2 powi (- 53) \<le> \<bar>round_double q\<bar>" by (intro round_double_ge_pow2) auto
      moreover have "0 \<le> round_double q" using qpos by (intro round_double_nonneg) auto
      moreover have "(0::rat) < 2 powi (- 53)" by simp
      ultimately show ?thesis using True by simp
    next
      case False
      then have n2: "2 \<le> n" using n1 by simp
      then have "(of_int 2 :: rat) \<le> of_int n" by (simp only: of_int_le_iff)
      then have "(1::rat) \<le> of_int n - 1" by simp
      then have q1: "1 \<le> q" using qgt by simp
      define e where "e = expo q"
      have e0: "0 \<le> e" unfolding e_def using q1 by (intro expo_ge) auto
      have eb: "2 powi e \<le> q" unfolding e_def using expo_bounds [OF qpos] by simp
      have u: "ulp_exp q = e - 53 + 1" using e0 qpos by (simp add: ulp_exp_def e_def)
      have half: "(2::rat) powi ulp_exp q / 2 = 2 powi (e - 53)"
        unfolding u by (subst power_int_add) auto
      have err: "\<bar>round_double q - q\<bar> \<le> 2 powi (e - 53)"
        using round_double_err [of q] by (simp only: half)
      define P :: rat where "P = 2 powi (e - 53)"
      have Ppos: "0 < P" by (simp add: P_def)
      have Pe: "P * 2 ^ 53 = 2 powi e"
        unfolding P_def using powi2_split [of e 53] by simp
      have tlt: "(of_int t :: rat) < 2 ^ 53"
      proof -
        have "(of_int t :: rat) < of_int (2 ^ 53)" using t by (simp only: of_int_less_iff)
        then show ?thesis by simp
      qed
      have "2 powi e * B \<le> q * B" using eb Bpos by (intro mult_right_mono) auto
      then have "P * 2 ^ 53 * B < 2 ^ 53" using tlt by (simp only: Pe qB)
      then have "(P * B) * 2 ^ 53 < 1 * 2 ^ 53" by (simp add: mult.commute mult.left_commute)
      then have "P * B < 1" by (rule mult_right_less_imp_less) simp
      then have "P < 1 / B" using Bpos by (simp add: pos_less_divide_eq)
      then have "2 powi (e - 53) < 1 / B" by (simp only: P_def)
      then show ?thesis using err gap by linarith
    qed
  qed
  have "\<lceil>round_double q\<rceil> = n"
    by (rule ceiling_unique) (use lower upper in auto)
  then show ?thesis by (simp add: q_def n_def)
qed

lemma batches_exact_below_2_53:
  assumes "compute_cost p t b g = Inr s" "t < 2 ^ 53" "b < 2 ^ 53"
  shows "CostSummary.batches s = \<lceil>(of_int t / of_int b :: rat)\<rceil>"
  using compute_cost_fields(1,7,8) [OF assms(1)] assms(2,3)
  by (simp add: ceiling_round_quotient)

text \<open>
  Claim C2: whenever \<open>compute_cost\<close> returns a summary, its \<open>totalGas\<close> is
  \<open>batches * proof_gas + batches * overhead_gas_per_batch + tx_count * calldata_gas_per_tx\<close>,
  with \<open>batches\<close> the value of the returned field. A returned summary means
  \<open>tx_count > 0\<close> and \<open>batch_size > 0\<close>.
\<close>

theorem total_gas_formula:
  assumes "compute_cost p t b g = Inr s"
  shows "totalGas s = CostSummary.batches s * proof_gas p
           + CostSummary.batches s * overhead_gas_per_batch p
           + t * calldata_gas_per_tx p"
  using compute_cost_fields(2-5) [OF assms] by simp

theorem total_gas_formula_witness:
  "map_sum id (\<lambda>s. (CostSummary.batches s, totalGas s)) (compute_cost aztec 1000 256 (Finite 20))
     = Inr (4, 4 * 900000 + 4 * 60000 + 1000 * 320)"
proof -
  obtain s where s: "compute_cost aztec 1000 256 (Finite 20) = Inr s"
    using compute_cost_succeeds [of 1000 256 aztec 20] aztec_bounds by auto
  have b: "CostSummary.batches s = 4" using batches_1000_256 by (simp add: s)
  have "totalGas s = 4 * 900000 + 4 * 60000 + 1000 * 320"
    using total_gas_formula [OF s] b by (simp add: aztec_def)
  then show ?thesis using b by (simp add: s)
qed

text \<open>
  Claim C3: with the built-in aztec profile, \<open>tx_count = 256\<close>, \<open>batch_size = 256\<close> and a gas
  price of 20 gwei, \<open>compute_cost\<close> returns \<open>batches = 1\<close>, \<open>totalProofGas = 900000\<close>,
  \<open>totalOverheadGas = 60000\<close>, \<open>totalCalldataGas = 81920\<close> and \<open>totalGas = 1041920\<close>.
\<close>

theorem aztec_256_example:
  "map_sum id (\<lambda>s. (CostSummary.batches s, totalProofGas s, totalOverheadGas s,
                     totalCalldataGas s, totalGas s))
     (compute_cost aztec 256 256 (Finite 20))
   = Inr (1, 900000, 60000, 81920, 1041920)"
proof -
  obtain s where s: "compute_cost aztec 256 256 (Finite 20) = Inr s"
    using compute_cost_succeeds [of 256 256 aztec 20] aztec_bounds by auto
  note f = compute_cost_fields [OF s]
  have b: "CostSummary.batches s = 1" using f(1) by (simp add: round_double_one)
  have "totalProofGas s = 900000" "totalOverheadGas s = 60000" "totalCalldataGas s = 81920"
    "totalGas s = 1041920"
    using f(2-5) b by (simp_all add: aztec_def)
  then show ?thesis using b by (simp add: s)
qed

section \<open>When the computation raises\<close>






















section \<open>Gas price and fee\<close>






section \<open>Per-transaction gas and echoed inputs\<close>

lemma round_double_quotient_err:
  assumes t: "0 < t" and nov: "\<not> dbl_overflow (round_double (of_int t))"
  shows "\<bar>round_double (of_int G / of_int t) * of_int t - of_int G\<bar> \<le> \<bar>of_int G\<bar> / 2 ^ 51"
    and "of_int t \<le> (2::rat) ^ 1022 \<Longrightarrow>
      \<bar>round_double (of_int G / of_int t) * of_int t - of_int G\<bar> \<le> \<bar>of_int G\<bar> / 2 ^ 53"
proof -
  define x :: rat where "x = of_int G / of_int t"
  define T :: rat where "T = of_int t"
  have Tpos: "0 < T" using t by (simp add: T_def)
  have xT: "x * T = of_int G" using Tpos by (simp add: x_def T_def)
  have tlt: "T < 2 ^ 1024"
  proof (rule ccontr)
    assume "\<not> T < 2 ^ 1024"
    then have "2 ^ 1024 \<le> \<bar>of_int t :: rat\<bar>" using Tpos by (simp add: T_def)
    then have "dbl_overflow (round_double (of_int t))" by (rule overflow_ge_pow2)
    with nov show False by simp
  qed
  have scale: "\<bar>round_double x * T - of_int G\<bar> = \<bar>round_double x - x\<bar> * T"
  proof -
    have "round_double x * T - of_int G = (round_double x - x) * T"
      using xT by (simp add: algebra_simps)
    then show ?thesis using Tpos by (simp add: abs_mult)
  qed
  have absx: "\<bar>x\<bar> * T = \<bar>of_int G\<bar>"
    using xT Tpos by (metis abs_mult abs_of_pos)
  have normal: "\<bar>round_double x * T - of_int G\<bar> \<le> \<bar>of_int G\<bar> / 2 ^ 53"
    if "2 powi (- 1022) \<le> \<bar>x\<bar>"
  proof -
    have "\<bar>round_double x - x\<bar> * T \<le> (\<bar>x\<bar> / 2 ^ 53) * T"
      using round_double_rel_err [OF that] Tpos by (intro mult_right_mono) auto
    also have "\<dots> = \<bar>of_int G\<bar> / 2 ^ 53" using absx by simp
    finally show ?thesis by (simp only: scale)
  qed
  have G1: "1 \<le> \<bar>of_int G :: rat\<bar>" if "G \<noteq> 0"
  proof -
    have "1 \<le> \<bar>G\<bar>" using that by simp
    then have "(of_int 1 :: rat) \<le> of_int \<bar>G\<bar>" by (simp only: of_int_le_iff)
    then show ?thesis by simp
  qed
  show "\<bar>round_double (of_int G / of_int t) * of_int t - of_int G\<bar> \<le> \<bar>of_int G\<bar> / 2 ^ 51"
  proof (cases "G = 0")
    case True
    then show ?thesis by (simp add: round_double_def)
  next
    case False
    show ?thesis
    proof (cases "2 powi (- 1022) \<le> \<bar>x\<bar>")
      case True
      have "\<bar>of_int G :: rat\<bar> / 2 ^ 53 \<le> \<bar>of_int G\<bar> / 2 ^ 51"
        by (intro divide_left_mono) auto
      then show ?thesis using normal [OF True] unfolding x_def T_def by linarith
    next
      case sub: False
      have xne: "x \<noteq> 0" using False Tpos by (simp add: x_def T_def)
      then have "0 < \<bar>x\<bar>" by simp
      then have "expo \<bar>x\<bar> < - 1022" using sub by (intro expo_less) auto
      then have u: "ulp_exp x = - 1074" by (simp add: ulp_exp_def)
      have "\<bar>round_double x - x\<bar> \<le> 2 powi (- 1074) / 2"
        using round_double_err [of x] by (simp only: u)
      then have "\<bar>round_double x - x\<bar> * T \<le> (2 powi (- 1074) / 2) * T"
        using Tpos by (intro mult_right_mono) auto
      also have "\<dots> \<le> (2 powi (- 1074) / 2) * 2 ^ 1024"
        using tlt by (intro mult_left_mono) auto
      also have "\<dots> = 1 / 2 ^ 51" by (simp add: power_int_minus_divide)
      also have "\<dots> \<le> \<bar>of_int G\<bar> / 2 ^ 51"
        using G1 [OF False] by (intro divide_right_mono) auto
      finally show ?thesis unfolding x_def T_def by (simp only: scale [unfolded x_def T_def])
    qed
  qed
  show "\<bar>round_double (of_int G / of_int t) * of_int t - of_int G\<bar> \<le> \<bar>of_int G\<bar> / 2 ^ 53"
    if small: "of_int t \<le> (2::rat) ^ 1022"
  proof (cases "G = 0")
    case True
    then show ?thesis by (simp add: round_double_def)
  next
    case False
    have "1 / 2 ^ 1022 \<le> 1 / T"
      using small Tpos unfolding T_def by (intro divide_left_mono) auto
    also have "\<dots> \<le> \<bar>of_int G\<bar> / T"
      using G1 [OF False] Tpos by (intro divide_right_mono) auto
    also have "\<dots> = \<bar>x\<bar>" using Tpos by (simp add: x_def T_def)
    finally have "2 powi (- 1022) \<le> \<bar>x\<bar>" by (simp add: power_int_minus_divide)
    then show ?thesis using normal unfolding x_def T_def by simp
  qed
qed

text \<open>
  Claim C7: on every returned summary \<open>perTxGas\<close> is the quotient
  \<open>totalGas / tx_count\<close> rounded to the nearest double, and multiplied by \<open>tx_count\<close> it is
  \<open>totalGas\<close> up to a relative error of \<open>2^-51\<close>, of \<open>2^-53\<close> (half a unit in the last
  place) when \<open>tx_count \<le> 2^1022\<close>; the exact quotient multiplied by \<open>tx_count\<close> is
  \<open>totalGas\<close>.
\<close>

theorem per_tx_gas_times_tx_count:
  assumes "compute_cost p t b g = Inr s"
  shows "perTxGas s = Finite (round_double (of_int (totalGas s) / of_int t))
    \<and> \<bar>round_double (of_int (totalGas s) / of_int t) * of_int t - of_int (totalGas s)\<bar>
        \<le> \<bar>of_int (totalGas s)\<bar> / 2 ^ 51
    \<and> (of_int t \<le> (2::rat) ^ 1022 \<longrightarrow>
        \<bar>round_double (of_int (totalGas s) / of_int t) * of_int t - of_int (totalGas s)\<bar>
        \<le> \<bar>of_int (totalGas s)\<bar> / 2 ^ 53)
    \<and> (of_int (totalGas s) / of_int t :: rat) * of_int t = of_int (totalGas s)"
proof -
  note f = compute_cost_fields [OF assms]
  have "(of_int (totalGas s) / of_int t :: rat) * of_int t = of_int (totalGas s)"
    using f(7) by simp
  then show ?thesis
    using f(6) round_double_quotient_err [OF f(7) f(9), of "totalGas s"] by blast
qed

lemma round_double_4160: "round_double 4160 = 4160"
  by code_simp

theorem per_tx_gas_times_tx_count_witness:
  "map_sum id perTxGas (compute_cost aztec 1000 256 (Finite 20)) = Inr (Finite 4160)
   \<and> \<bar>(4160::rat) * 1000 - 4160000\<bar> \<le> \<bar>4160000\<bar> / 2 ^ 53"
proof -
  obtain s where s: "compute_cost aztec 1000 256 (Finite 20) = Inr s"
    using compute_cost_succeeds [of 1000 256 aztec 20] aztec_bounds by auto
  have b: "CostSummary.batches s = 4" using batches_1000_256 by (simp add: s)
  have tg: "totalGas s = 4160000"
    using compute_cost_fields(2-5) [OF s] b by (simp add: aztec_def)
  have small: "of_int 1000 \<le> (2::rat) ^ 1022" by simp
  note T = per_tx_gas_times_tx_count [OF s]
  have "perTxGas s = Finite 4160" using T tg by (simp add: round_double_4160)
  moreover have "\<bar>round_double (of_int (totalGas s) / of_int 1000) * of_int 1000
      - of_int (totalGas s)\<bar> \<le> \<bar>of_int (totalGas s) :: rat\<bar> / 2 ^ 53"
    using T small by blast
  ultimately show ?thesis using tg by (simp add: s round_double_4160)
qed



section \<open>Monotonicity and the profiles\<close>

lemma batches_mono:
  assumes "t1 \<le> t2" "0 < b"
  shows "\<lceil>round_double (of_int t1 / of_int b)\<rceil> \<le> \<lceil>round_double (of_int t2 / of_int b)\<rceil>"
proof -
  have "(of_int t1 :: rat) / of_int b \<le> of_int t2 / of_int b"
    using assms by (intro divide_right_mono) auto
  then show ?thesis by (intro ceiling_mono round_double_mono)
qed

text \<open>
  Claim C10 speaks of every profile. The custom profile built from \<open>--proof-gas 0
  --calldata-gas-per-tx -1 --overhead-gas-per-batch 0\<close> gives \<open>totalGas = -1\<close> for one
  transaction and \<open>-2\<close> for two.
\<close>

theorem total_gas_negative_calldata_counterexample:
  "map_sum id totalGas
     (compute_cost \<lparr> key = ''custom'', name = ''Custom rollup profile'',
        description = ''User-defined gas parameters for a hypothetical rollup.'',
        proof_gas = 0, calldata_gas_per_tx = - 1, overhead_gas_per_batch = 0 \<rparr>
        1 1 (Finite 20)) = Inr (- 1)
   \<and> map_sum id totalGas
     (compute_cost \<lparr> key = ''custom'', name = ''Custom rollup profile'',
        description = ''User-defined gas parameters for a hypothetical rollup.'',
        proof_gas = 0, calldata_gas_per_tx = - 1, overhead_gas_per_batch = 0 \<rparr>
        2 1 (Finite 20)) = Inr (- 2)"
proof -
  define P where "P = \<lparr> key = ''custom'', name = ''Custom rollup profile'',
        description = ''User-defined gas parameters for a hypothetical rollup.'',
        proof_gas = 0, calldata_gas_per_tx = - 1, overhead_gas_per_batch = 0 \<rparr>"
  have pb: "\<bar>proof_gas P\<bar> \<le> 2 ^ 256" "\<bar>overhead_gas_per_batch P\<bar> \<le> 2 ^ 256"
    "\<bar>calldata_gas_per_tx P\<bar> \<le> 2 ^ 256"
    by (simp_all add: P_def)
  obtain s1 where s1: "compute_cost P 1 1 (Finite 20) = Inr s1"
    using compute_cost_succeeds [of 1 1 P 20] pb by auto
  obtain s2 where s2: "compute_cost P 2 1 (Finite 20) = Inr s2"
    using compute_cost_succeeds [of 2 1 P 20] pb by auto
  have "totalGas s1 = - 1" using compute_cost_fields(2-5) [OF s1] by (simp add: P_def)
  moreover have "totalGas s2 = - 2" using compute_cost_fields(2-5) [OF s2] by (simp add: P_def)
  ultimately show ?thesis unfolding P_def [symmetric] by (simp add: s1 s2)
qed

text \<open>
  Claim C10, as the code has it: for a profile whose three gas fields are non-negative,
  \<open>totalGas\<close> does not decrease when \<open>tx_count\<close> grows, batch size and gas price fixed.
\<close>

theorem total_gas_monotone:
  assumes "0 \<le> proof_gas p" "0 \<le> overhead_gas_per_batch p" "0 \<le> calldata_gas_per_tx p"
    and "t1 \<le> t2"
    and "compute_cost p t1 b g = Inr s1" "compute_cost p t2 b g = Inr s2"
  shows "totalGas s1 \<le> totalGas s2"
proof -
  note f1 = compute_cost_fields [OF assms(5)]
  note f2 = compute_cost_fields [OF assms(6)]
  have n: "CostSummary.batches s1 \<le> CostSummary.batches s2"
    unfolding f1(1) f2(1) using assms(4) f1(8) by (rule batches_mono)
  have "CostSummary.batches s1 * proof_gas p \<le> CostSummary.batches s2 * proof_gas p"
    using n assms(1) by (rule mult_right_mono)
  moreover have "CostSummary.batches s1 * overhead_gas_per_batch p
      \<le> CostSummary.batches s2 * overhead_gas_per_batch p"
    using n assms(2) by (rule mult_right_mono)
  moreover have "t1 * calldata_gas_per_tx p \<le> t2 * calldata_gas_per_tx p"
    using assms(4,3) by (rule mult_right_mono)
  ultimately show ?thesis using f1(2-5) f2(2-5) by simp
qed

theorem total_gas_monotone_witness:
  "map_sum id totalGas (compute_cost aztec 256 256 (Finite 20)) = Inr 1041920
   \<and> map_sum id totalGas (compute_cost aztec 1000 256 (Finite 20)) = Inr 4160000
   \<and> (1041920::int) \<le> 4160000"
proof -
  obtain s1 where s1: "compute_cost aztec 256 256 (Finite 20) = Inr s1"
    using compute_cost_succeeds [of 256 256 aztec 20] aztec_bounds by auto
  obtain s2 where s2: "compute_cost aztec 1000 256 (Finite 20) = Inr s2"
    using compute_cost_succeeds [of 1000 256 aztec 20] aztec_bounds by auto
  have nn: "0 \<le> proof_gas aztec" "0 \<le> overhead_gas_per_batch aztec"
    "0 \<le> calldata_gas_per_tx aztec" "(256::int) \<le> 1000"
    by (simp_all add: aztec_def)
  have le: "totalGas s1 \<le> totalGas s2" by (rule total_gas_monotone [OF nn s1 s2])
  have b1: "CostSummary.batches s1 = 1"
    using compute_cost_fields(1) [OF s1] by (simp add: round_double_one)
  have b2: "CostSummary.batches s2 = 4" using batches_1000_256 by (simp add: s2)
  have "totalGas s1 = 1041920" using compute_cost_fields(2-5) [OF s1] b1 by (simp add: aztec_def)
  moreover have "totalGas s2 = 4160000"
    using compute_cost_fields(2-5) [OF s2] b2 by (simp add: aztec_def)
  ultimately show ?thesis using le by (simp add: s1 s2)
qed




text \<open>
  Claim C8 says that a custom profile has non-negative gas fields. \<open>--proof-gas -1\<close> is
  accepted and the profile built from it has \<open>proof_gas = -1\<close>.
\<close>

theorem custom_profile_negative_counterexample:
  "build_custom_profile \<lparr> arg_tx_count = 10, arg_profile = ''custom'', arg_batch_size = 256,
        arg_gas_price_gwei = Finite 20, arg_proof_gas = Some (- 1),
        arg_calldata_gas_per_tx = Some 0, arg_overhead_gas_per_batch = Some 0,
        arg_json = False, arg_list_profiles = False \<rparr>
     = Inr \<lparr> key = ''custom'', name = ''Custom rollup profile'',
          description = ''User-defined gas parameters for a hypothetical rollup.'',
          proof_gas = - 1, calldata_gas_per_tx = 0, overhead_gas_per_batch = 0 \<rparr>
   \<and> (- 1 :: int) < 0"
  by (simp add: build_custom_profile_def)

lemma registry_profiles:
  assumes "map_of PROFILES k = Some p"
  shows "p = aztec \<or> p = zama \<or> p = soundness"
  using assms by (simp add: PROFILES_def split: if_splits)

lemma registry_nonneg:
  assumes "map_of PROFILES k = Some p"
  shows "0 \<le> proof_gas p \<and> 0 \<le> calldata_gas_per_tx p \<and> 0 \<le> overhead_gas_per_batch p"
  using registry_profiles [OF assms] by (auto simp: aztec_def zama_def soundness_def)

lemma build_custom_profile_Inr:
  assumes "build_custom_profile a = Inr p"
  shows "arg_proof_gas a = Some (proof_gas p)
      \<and> arg_calldata_gas_per_tx a = Some (calldata_gas_per_tx p)
      \<and> arg_overhead_gas_per_batch a = Some (overhead_gas_per_batch p)"
  using assms
  by (cases "arg_proof_gas a"; cases "arg_calldata_gas_per_tx a";
      cases "arg_overhead_gas_per_batch a")
    (auto simp: build_custom_profile_def)

text \<open>
  Claim C8, as the code has it: the three registry profiles have non-negative gas fields;
  a custom profile carries the three integers given on the command line, whatever their
  sign.
\<close>

theorem profile_gas_fields:
  "(map_of PROFILES k = Some p \<longrightarrow>
      0 \<le> proof_gas p \<and> 0 \<le> calldata_gas_per_tx p \<and> 0 \<le> overhead_gas_per_batch p)
   \<and> (build_custom_profile a = Inr p \<longrightarrow>
      arg_proof_gas a = Some (proof_gas p)
      \<and> arg_calldata_gas_per_tx a = Some (calldata_gas_per_tx p)
      \<and> arg_overhead_gas_per_batch a = Some (overhead_gas_per_batch p))"
proof (rule conjI; rule impI)
  assume "map_of PROFILES k = Some p"
  then show "0 \<le> proof_gas p \<and> 0 \<le> calldata_gas_per_tx p \<and> 0 \<le> overhead_gas_per_batch p"
    by (rule registry_nonneg)
next
  assume "build_custom_profile a = Inr p"
  then show "arg_proof_gas a = Some (proof_gas p)
      \<and> arg_calldata_gas_per_tx a = Some (calldata_gas_per_tx p)
      \<and> arg_overhead_gas_per_batch a = Some (overhead_gas_per_batch p)"
    by (rule build_custom_profile_Inr)
qed

theorem profile_gas_fields_witness:
  "map_of PROFILES ''zama'' = Some zama
   \<and> 0 \<le> proof_gas zama \<and> 0 \<le> calldata_gas_per_tx zama \<and> 0 \<le> overhead_gas_per_batch zama
   \<and> build_custom_profile \<lparr> arg_tx_count = 10, arg_profile = ''custom'', arg_batch_size = 256,
        arg_gas_price_gwei = Finite 20, arg_proof_gas = Some 4, arg_calldata_gas_per_tx = Some 5,
        arg_overhead_gas_per_batch = Some 6, arg_json = False, arg_list_profiles = False \<rparr>
     = Inr \<lparr> key = ''custom'', name = ''Custom rollup profile'',
          description = ''User-defined gas parameters for a hypothetical rollup.'',
          proof_gas = 4, calldata_gas_per_tx = 5, overhead_gas_per_batch = 6 \<rparr>"
proof -
  have z: "map_of PROFILES ''zama'' = Some zama" by (simp add: PROFILES_def)
  have c: "build_custom_profile \<lparr> arg_tx_count = 10, arg_profile = ''custom'',
        arg_batch_size = 256, arg_gas_price_gwei = Finite 20, arg_proof_gas = Some 4,
        arg_calldata_gas_per_tx = Some 5, arg_overhead_gas_per_batch = Some 6, arg_json = False,
        arg_list_profiles = False \<rparr>
     = Inr \<lparr> key = ''custom'', name = ''Custom rollup profile'',
          description = ''User-defined gas parameters for a hypothetical rollup.'',
          proof_gas = 4, calldata_gas_per_tx = 5, overhead_gas_per_batch = 6 \<rparr>"
    by (simp add: build_custom_profile_def)
  show ?thesis
    using z c profile_gas_fields [of "''zama''" zama] by simp
qed

end
